theory Spec2Isabelle
  imports Complex_Main
begin

section \<open>The five-in-a-row (omok) board engine\<close>

text \<open>
  The engine is the script that owns the module-level variables \<open>board\<close>,
  \<open>currentPlayer\<close> and \<open>gameActive\<close> and the functions \<open>initBoardState\<close>,
  \<open>handleClick\<close>, \<open>placeStone\<close>, \<open>checkWin\<close>, \<open>isValid\<close>, \<open>endGame\<close>,
  \<open>resetGame\<close> and \<open>updateTurnUI\<close>. Cells and players are JavaScript numbers
  (0 empty, 1 black, 2 white) and are modelled as \<open>int\<close>; the board is an array of
  arrays and is modelled as a list of lists. The module-level variables and the
  DOM properties the script writes form one record that every function takes
  and returns. Painting the canvas (\<open>drawBoard\<close>, \<open>drawStone\<close>) reads the board
  and writes pixels only, so it leaves this record as it is and has no
  definition of its own.
\<close>

subsection \<open>Constants\<close>

definition BOARD_SIZE :: int where
  "BOARD_SIZE = 15"

definition GRID_SIZE :: rat where
  "GRID_SIZE = 600"

definition CELL_SIZE :: rat where
  "CELL_SIZE = GRID_SIZE / of_int BOARD_SIZE"

definition PADDING :: rat where
  "PADDING = CELL_SIZE / 2"

subsection \<open>State\<close>

type_synonym grid = "int list list"

text \<open>
  The captions the script assigns to \<open>innerText\<close> are fixed string literals (a
  Korean phrase with the English colour name in brackets); each literal is one
  constructor. \<open>PageText\<close> stands for whatever the page held before the script
  first wrote the element.
\<close>

datatype caption = PageText | BlackTurnText | WhiteTurnText | BlackWinText | WhiteWinText

record game =
  board :: grid
  currentPlayer :: int
  gameActive :: bool
  turnText :: caption
  turnStone :: "string set"
  winnerText :: caption
  modal :: "string set"

text \<open>
  What the click listener receives: the mouse event and the rectangle that
  \<open>canvas.getBoundingClientRect()\<close> answers for it. Pixel coordinates are
  numbers; they are modelled as rationals, on which \<open>round\<close> is
  \<open>\<lfloor>x + 1/2\<rfloor>\<close>, the rounding of \<open>Math.round\<close> (halves go up).
\<close>

record dom_rect =
  rect_left :: rat
  rect_top :: rat

record mouse_event =
  clientX :: rat
  clientY :: rat

text \<open>
  How a call of the listener ends. Every \<open>return\<close> of \<open>handleClick\<close> is a bare
  \<open>return\<close> and so is falling off its end: the call yields \<open>undefined\<close>. The
  other way a JavaScript call can end is by throwing.
\<close>

datatype completion = ReturnsUndefined | Throws

subsection \<open>Bounds and win detection\<close>

definition isValid :: "int \<Rightarrow> int \<Rightarrow> bool" where
  "isValid r c \<longleftrightarrow> r \<ge> 0 \<and> r < BOARD_SIZE \<and> c \<ge> 0 \<and> c < BOARD_SIZE"

definition directions :: "(int \<times> int) list" where
  "directions = [(0, 1), (1, 0), (1, 1), (1, -1)]"

text \<open>
  The two inner loops of \<open>checkWin\<close>: \<open>i\<close> runs from 1 while \<open>i < 5\<close>, the
  counter grows on a cell of the player inside the board, and the first other
  cell breaks the loop.
\<close>

function checkForward :: "grid \<Rightarrow> int \<Rightarrow> int \<Rightarrow> int \<Rightarrow> int \<Rightarrow> int \<Rightarrow> int \<Rightarrow> int \<Rightarrow> int" where
  "checkForward b r c player dr dc i count =
     (if i < 5 then
        (let nr = r + dr * i; nc = c + dc * i in
         if isValid nr nc \<and> b ! nat nr ! nat nc = player
         then checkForward b r c player dr dc (i + 1) (count + 1)
         else count)
      else count)"
  by pat_completeness auto
termination
  by (relation "measure (\<lambda>(b, r, c, player, dr, dc, i, count). nat (5 - i))") auto

function checkBackward :: "grid \<Rightarrow> int \<Rightarrow> int \<Rightarrow> int \<Rightarrow> int \<Rightarrow> int \<Rightarrow> int \<Rightarrow> int \<Rightarrow> int" where
  "checkBackward b r c player dr dc i count =
     (if i < 5 then
        (let nr = r - dr * i; nc = c - dc * i in
         if isValid nr nc \<and> b ! nat nr ! nat nc = player
         then checkBackward b r c player dr dc (i + 1) (count + 1)
         else count)
      else count)"
  by pat_completeness auto
termination
  by (relation "measure (\<lambda>(b, r, c, player, dr, dc, i, count). nat (5 - i))") auto

declare checkForward.simps [simp del] checkBackward.simps [simp del]

text \<open>The body of the outer loop for one direction: the value of \<open>count\<close> at the test.\<close>

definition lineCount :: "grid \<Rightarrow> int \<Rightarrow> int \<Rightarrow> int \<Rightarrow> int \<times> int \<Rightarrow> int" where
  "lineCount b r c player d =
     (case d of (dr, dc) \<Rightarrow>
        checkBackward b r c player dr dc 1 (checkForward b r c player dr dc 1 1))"

fun checkWinLoop :: "grid \<Rightarrow> int \<Rightarrow> int \<Rightarrow> int \<Rightarrow> (int \<times> int) list \<Rightarrow> bool" where
  "checkWinLoop b r c player [] = False"
| "checkWinLoop b r c player (d # ds) =
     (if lineCount b r c player d \<ge> 5 then True else checkWinLoop b r c player ds)"

definition checkWin :: "grid \<Rightarrow> int \<Rightarrow> int \<Rightarrow> int \<Rightarrow> bool" where
  "checkWin b r c player = checkWinLoop b r c player directions"

subsection \<open>Operations on the game\<close>

definition updateTurnUI :: "game \<Rightarrow> game" where
  "updateTurnUI s =
     (if currentPlayer s = 1
      then s\<lparr>turnText := BlackTurnText,
             turnStone := insert ''black'' (turnStone s - {''white''})\<rparr>
      else s\<lparr>turnText := WhiteTurnText,
             turnStone := insert ''white'' (turnStone s - {''black''})\<rparr>)"

definition initBoardState :: "game \<Rightarrow> game" where
  "initBoardState s =
     updateTurnUI (s\<lparr>board := replicate (nat BOARD_SIZE) (replicate (nat BOARD_SIZE) 0),
                     currentPlayer := 1,
                     gameActive := True\<rparr>)"

definition endGame :: "int \<Rightarrow> game \<Rightarrow> game" where
  "endGame winner s =
     s\<lparr>gameActive := False,
       winnerText := (if winner = 1 then BlackWinText else WhiteWinText),
       modal := modal s - {''hidden''}\<rparr>"

text \<open>
  \<open>placeStone\<close> is called by \<open>handleClick\<close> only, after its bounds check, so the
  assignment \<open>board[r][c] = currentPlayer\<close> overwrites an existing element.
\<close>

definition placeStone :: "int \<Rightarrow> int \<Rightarrow> game \<Rightarrow> game" where
  "placeStone r c s =
     (let s1 = s\<lparr>board := (board s)[nat r := (board s ! nat r)[nat c := currentPlayer s]]\<rparr> in
      if checkWin (board s1) r c (currentPlayer s1)
      then endGame (currentPlayer s1) s1
      else updateTurnUI (s1\<lparr>currentPlayer := (if currentPlayer s1 = 1 then 2 else 1)\<rparr>))"

definition clickIndex :: "rat \<Rightarrow> int" where
  "clickIndex x = round ((x - PADDING) / CELL_SIZE)"

definition handleClick :: "dom_rect \<Rightarrow> mouse_event \<Rightarrow> game \<Rightarrow> completion \<times> game" where
  "handleClick rect e s =
     (if \<not> gameActive s then (ReturnsUndefined, s)
      else
        let x = clientX e - rect_left rect;
            y = clientY e - rect_top rect;
            c = clickIndex x;
            r = clickIndex y
        in if r < 0 \<or> r \<ge> BOARD_SIZE \<or> c < 0 \<or> c \<ge> BOARD_SIZE then (ReturnsUndefined, s)
           else if board s ! nat r ! nat c \<noteq> 0 then (ReturnsUndefined, s)
           else (ReturnsUndefined, placeStone r c s))"

definition resetGame :: "game \<Rightarrow> game" where
  "resetGame s = initBoardState (s\<lparr>modal := insert ''hidden'' (modal s)\<rparr>)"

text \<open>
  The listeners \<open>init\<close> registers: a click on the canvas runs \<open>handleClick\<close>, a
  click on either reset button runs \<open>resetGame\<close>. A game is the run of a list of
  such events.
\<close>

datatype event = CanvasClick dom_rect mouse_event | ResetClick | ModalResetClick

fun dispatch :: "event \<Rightarrow> game \<Rightarrow> game" where
  "dispatch (CanvasClick rect e) s = snd (handleClick rect e s)"
| "dispatch ResetClick s = resetGame s"
| "dispatch ModalResetClick s = resetGame s"

fun run :: "event list \<Rightarrow> game \<Rightarrow> game" where
  "run [] s = s"
| "run (ev # evs) s = run evs (dispatch ev s)"

fun isReset :: "event \<Rightarrow> bool" where
  "isReset (CanvasClick rect e) = False"
| "isReset ResetClick = True"
| "isReset ModalResetClick = True"

section \<open>Predicates of the specification\<close>

text \<open>
  The board of every state the script reaches is 15 rows of 15 cells: it is
  built so by \<open>initBoardState\<close> and afterwards only written at an index that
  passed the bounds check.
\<close>

definition wf_board :: "grid \<Rightarrow> bool" where
  "wf_board b \<longleftrightarrow> length b = nat BOARD_SIZE \<and> (\<forall>row \<in> set b. length row = nat BOARD_SIZE)"

definition valid_state :: "game \<Rightarrow> bool" where
  "valid_state s \<longleftrightarrow>
     wf_board (board s) \<and> (\<forall>row \<in> set (board s). \<forall>v \<in> set row. v \<in> {0, 1, 2}) \<and>
     currentPlayer s \<in> {1, 2}"

text \<open>
  A cell is marked for a player when it lies on the board and holds that
  player's number. The run of a player from \<open>(r, c)\<close> in direction
  \<open>(dr, dc)\<close> is the number of marked cells met by stepping from \<open>(r, c)\<close>
  before the first cell that is not marked; the run has no cap. The count of
  a line is the starting cell itself plus the runs on its two sides.
\<close>

definition marked :: "grid \<Rightarrow> int \<Rightarrow> int \<Rightarrow> int \<Rightarrow> bool" where
  "marked b player r c \<longleftrightarrow> isValid r c \<and> b ! nat r ! nat c = player"

definition run_length :: "grid \<Rightarrow> int \<Rightarrow> int \<Rightarrow> int \<Rightarrow> int \<Rightarrow> int \<Rightarrow> nat" where
  "run_length b player r c dr dc =
     (LEAST k. \<not> marked b player (r + dr * int (Suc k)) (c + dc * int (Suc k)))"

definition line_total :: "grid \<Rightarrow> int \<Rightarrow> int \<Rightarrow> int \<Rightarrow> int \<times> int \<Rightarrow> nat" where
  "line_total b player r c d =
     (case d of (dr, dc) \<Rightarrow>
        1 + run_length b player r c dr dc + run_length b player r c (- dr) (- dc))"

text \<open>
  The scan of the whole board: some cell starts five marked cells in a row
  along one of the four directions. A longer line contains such a five.
\<close>

definition fiveFrom :: "grid \<Rightarrow> int \<Rightarrow> int \<Rightarrow> int \<Rightarrow> int \<times> int \<Rightarrow> bool" where
  "fiveFrom b player r0 c0 d =
     (case d of (dr, dc) \<Rightarrow> list_all (\<lambda>i. marked b player (r0 + dr * i) (c0 + dc * i)) [0..4])"

definition hasWinningLine :: "grid \<Rightarrow> int \<Rightarrow> bool" where
  "hasWinningLine b player =
     list_ex (\<lambda>r0. list_ex (\<lambda>c0. list_ex (fiveFrom b player r0 c0) directions)
        [0..BOARD_SIZE - 1]) [0..BOARD_SIZE - 1]"

text \<open>The board after the assignment \<open>board[r][c] = v\<close>.\<close>

definition setCell :: "grid \<Rightarrow> int \<Rightarrow> int \<Rightarrow> int \<Rightarrow> grid" where
  "setCell b r c v = b[nat r := (b ! nat r)[nat c := v]]"

text \<open>
  The row and column \<open>handleClick\<close> computes for an event, and its three
  guards taken together: the click is accepted when the game is active, the
  indices are on the board and the cell is empty.
\<close>

definition clickRow :: "dom_rect \<Rightarrow> mouse_event \<Rightarrow> int" where
  "clickRow rect e = clickIndex (clientY e - rect_top rect)"

definition clickCol :: "dom_rect \<Rightarrow> mouse_event \<Rightarrow> int" where
  "clickCol rect e = clickIndex (clientX e - rect_left rect)"

definition accepts :: "dom_rect \<Rightarrow> mouse_event \<Rightarrow> game \<Rightarrow> bool" where
  "accepts rect e s \<longleftrightarrow>
     gameActive s \<and> isValid (clickRow rect e) (clickCol rect e) \<and>
     board s ! nat (clickRow rect e) ! nat (clickCol rect e) = 0"

text \<open>
  The specification lets a rejected move signal InvalidMove to the caller. A
  call of the listener shows its caller how it ended and nothing else, so a
  signal is an end of the call other than the plain return of \<open>undefined\<close>.
\<close>

definition signalsInvalidMove :: "completion \<Rightarrow> bool" where
  "signalsInvalidMove k \<longleftrightarrow> k \<noteq> ReturnsUndefined"

subsection \<open>Sample boards and games\<close>

definition emptyBoard :: grid where
  "emptyBoard = replicate 15 (replicate 15 0)"

text \<open>Black on row 7, columns 3 to 6, and on row 7, columns 2 to 7.\<close>

definition fourBoard :: grid where
  "fourBoard = emptyBoard[7 := (replicate 15 0)[3 := 1, 4 := 1, 5 := 1, 6 := 1]]"

definition sixBoard :: grid where
  "sixBoard = emptyBoard[7 := (replicate 15 0)[2 := 1, 3 := 1, 4 := 1, 5 := 1, 6 := 1, 7 := 1]]"

text \<open>
  The module-level variables as the script declares them, with the page as it
  loads, and the state after \<open>init\<close> has run \<open>initBoardState\<close>.
\<close>

definition loaded :: game where
  "loaded = \<lparr>board = [], currentPlayer = 1, gameActive = True, turnText = PageText,
              turnStone = {}, winnerText = PageText, modal = {''hidden''}\<rparr>"

definition fresh :: game where
  "fresh = initBoardState loaded"

text \<open>
  A canvas at the origin of the viewport and the click on the exact
  intersection of row \<open>r\<close> and column \<open>c\<close>.
\<close>

definition rect0 :: dom_rect where
  "rect0 = \<lparr>rect_left = 0, rect_top = 0\<rparr>"

definition pointAt :: "int \<Rightarrow> int \<Rightarrow> mouse_event" where
  "pointAt r c =
     \<lparr>clientX = PADDING + of_int c * CELL_SIZE, clientY = PADDING + of_int r * CELL_SIZE\<rparr>"

definition clickAt :: "int \<Rightarrow> int \<Rightarrow> event" where
  "clickAt r c = CanvasClick rect0 (pointAt r c)"

text \<open>
  Black plays (7, 3) to (7, 6) with White answering on row 0; Black is to move.
  The click on (7, 7) then completes five in a row.
\<close>

definition nearWin :: game where
  "nearWin = run [clickAt 7 3, clickAt 0 0, clickAt 7 4, clickAt 0 1,
                  clickAt 7 5, clickAt 0 2, clickAt 7 6, clickAt 0 3] fresh"

definition won :: game where
  "won = dispatch (clickAt 7 7) nearWin"

section \<open>Win detection\<close>

lemma leaves_board:
  assumes "dr \<noteq> 0 \<or> dc \<noteq> 0"
  shows "\<exists>k. \<not> marked b player (r + dr * int (Suc k)) (c + dc * int (Suc k))"
proof -
  define k where "k = nat (\<bar>r\<bar> + \<bar>c\<bar> + 15)"
  have big: "int (Suc k) > \<bar>r\<bar> + 15" "int (Suc k) > \<bar>c\<bar> + 15"
    by (simp_all add: k_def)
  have out: "\<not> isValid (r + dr * int (Suc k)) (c + dc * int (Suc k))"
  proof (cases "dr \<noteq> 0")
    case True
    then have "\<bar>dr * int (Suc k)\<bar> \<ge> int (Suc k)"
      by (simp add: abs_mult) 
    with big show ?thesis
      by (auto simp: isValid_def BOARD_SIZE_def)
  next
    case False
    with assms have "dc \<noteq> 0" by simp
    then have "\<bar>dc * int (Suc k)\<bar> \<ge> int (Suc k)"
      by (simp add: abs_mult)
    with big show ?thesis
      by (auto simp: isValid_def BOARD_SIZE_def)
  qed
  then show ?thesis
    by (auto simp: marked_def)
qed

lemma run_length_ge_iff:
  assumes "dr \<noteq> 0 \<or> dc \<noteq> 0"
  shows "k \<le> run_length b player r c dr dc \<longleftrightarrow>
         (\<forall>j \<in> {1..k}. marked b player (r + dr * int j) (c + dc * int j))"
proof
  assume le: "k \<le> run_length b player r c dr dc"
  show "\<forall>j \<in> {1..k}. marked b player (r + dr * int j) (c + dc * int j)"
  proof
    fix j assume "j \<in> {1..k}"
    then obtain j' where j: "j = Suc j'" and "j' < k"
      by (cases j) auto
    with le have "j' < (LEAST k. \<not> marked b player (r + dr * int (Suc k)) (c + dc * int (Suc k)))"
      by (simp add: run_length_def)
    from not_less_Least [OF this] show "marked b player (r + dr * int j) (c + dc * int j)"
      by (simp add: j)
  qed
next
  assume all: "\<forall>j \<in> {1..k}. marked b player (r + dr * int j) (c + dc * int j)"
  have stop: "\<not> marked b player (r + dr * int (Suc (run_length b player r c dr dc)))
                (c + dc * int (Suc (run_length b player r c dr dc)))"
    unfolding run_length_def by (rule LeastI_ex) (rule leaves_board [OF assms])
  show "k \<le> run_length b player r c dr dc"
  proof (rule ccontr)
    assume "\<not> k \<le> run_length b player r c dr dc"
    then have "Suc (run_length b player r c dr dc) \<in> {1..k}" by simp
    with all stop show False by blast
  qed
qed

lemma checkBackward_eq:
  "checkBackward b r c player dr dc i count = checkForward b r c player (- dr) (- dc) i count"
proof (induction b r c player dr dc i count rule: checkBackward.induct)
  case (1 b r c player dr dc i count)
  show ?case
    using "1"
    by (subst checkBackward.simps, subst checkForward.simps) (simp add: Let_def)
qed

lemma checkForward_step:
  "checkForward b r c player dr dc i count =
     (if i < 5 \<and> marked b player (r + dr * i) (c + dc * i)
      then checkForward b r c player dr dc (i + 1) (count + 1) else count)"
  by (subst checkForward.simps) (simp add: marked_def Let_def)

lemma checkForward_run:
  "dr \<noteq> 0 \<or> dc \<noteq> 0 \<Longrightarrow> 1 \<le> i \<Longrightarrow> i \<le> 5 \<Longrightarrow>
   nat (i - 1) \<le> run_length b player r c dr dc \<Longrightarrow>
     checkForward b r c player dr dc i count =
       count + min 4 (int (run_length b player r c dr dc)) - (i - 1)"
proof (induction b r c player dr dc i count rule: checkForward.induct)
  case (1 b r c player dr dc i count)
  let ?n = "run_length b player r c dr dc"
  note nz = "1.prems"(1)
  show ?case
  proof (cases "i < 5")
    case False
    with "1.prems" have "i = 5" by simp
    with "1.prems" show ?thesis
      by (subst checkForward_step) simp
  next
    case lt: True
    show ?thesis
    proof (cases "marked b player (r + dr * i) (c + dc * i)")
      case True
      have "nat i \<le> ?n"
        unfolding run_length_ge_iff [OF nz]
      proof
        fix j assume j: "j \<in> {1..nat i}"
        show "marked b player (r + dr * int j) (c + dc * int j)"
        proof (cases "j = nat i")
          case True
          with "1.prems" \<open>marked b player (r + dr * i) (c + dc * i)\<close> show ?thesis by simp
        next
          case False
          with j "1.prems" have "j \<in> {1..nat (i - 1)}" by auto
          with "1.prems"(4) show ?thesis
            unfolding run_length_ge_iff [OF nz] by blast
        qed
      qed
      then have ih: "checkForward b r c player dr dc (i + 1) (count + 1) =
                     count + 1 + min 4 (int ?n) - (i + 1 - 1)"
        using "1.IH" [OF lt refl refl] True "1.prems" lt by (simp add: marked_def)
      from True lt have "checkForward b r c player dr dc i count =
                     checkForward b r c player dr dc (i + 1) (count + 1)"
        by (subst checkForward_step) simp
      with ih show ?thesis by simp
    next
      case False
      have "\<not> nat i \<le> ?n"
      proof
        assume "nat i \<le> ?n"
        moreover from "1.prems" have "nat i \<in> {1..nat i}" by simp
        ultimately have "marked b player (r + dr * int (nat i)) (c + dc * int (nat i))"
          unfolding run_length_ge_iff [OF nz] by blast
        with False "1.prems" show False by simp
      qed
      with "1.prems" have "int ?n = i - 1" by linarith
      moreover from False lt have "checkForward b r c player dr dc i count = count"
        by (subst checkForward_step) simp
      ultimately show ?thesis using lt by simp
    qed
  qed
qed

lemma lineCount_run:
  assumes nz: "dr \<noteq> 0 \<or> dc \<noteq> 0"
  shows "lineCount b r c player (dr, dc) =
           1 + min 4 (int (run_length b player r c dr dc))
             + min 4 (int (run_length b player r c (- dr) (- dc)))"
proof -
  from nz have nz': "- dr \<noteq> 0 \<or> - dc \<noteq> 0" by simp
  show ?thesis
    by (simp add: lineCount_def checkBackward_eq checkForward_run [OF nz] checkForward_run [OF nz'])
qed

lemma lineCount_ge5:
  assumes nz: "dr \<noteq> 0 \<or> dc \<noteq> 0"
  shows "lineCount b r c player (dr, dc) \<ge> 5 \<longleftrightarrow> line_total b player r c (dr, dc) \<ge> 5"
  by (simp add: lineCount_run [OF nz] line_total_def) linarith

lemma checkWinLoop_ex:
  "checkWinLoop b r c player ds \<longleftrightarrow> (\<exists>d \<in> set ds. lineCount b r c player d \<ge> 5)"
  by (induction ds) auto

lemma checkWin_total:
  "checkWin b r c player \<longleftrightarrow> (\<exists>d \<in> set directions. line_total b player r c d \<ge> 5)"
proof -
  have "\<And>d. d \<in> set directions \<Longrightarrow>
          lineCount b r c player d \<ge> 5 \<longleftrightarrow> line_total b player r c d \<ge> 5"
    using lineCount_ge5 by (auto simp: directions_def)
  then show ?thesis
    by (auto simp: checkWin_def checkWinLoop_ex)
qed


lemma checkWin_of_runs:
  assumes d: "(dr, dc) \<in> set directions"
    and fwd: "\<forall>j \<in> {1..m}. marked b player (r + dr * int j) (c + dc * int j)"
    and bwd: "\<forall>j \<in> {1..n}. marked b player (r - dr * int j) (c - dc * int j)"
    and sum: "4 \<le> m + n"
  shows "checkWin b r c player"
proof -
  from d have nz: "dr \<noteq> 0 \<or> dc \<noteq> 0"
    by (auto simp: directions_def)
  then have nz': "- dr \<noteq> 0 \<or> - dc \<noteq> 0" by simp
  from fwd have "m \<le> run_length b player r c dr dc"
    unfolding run_length_ge_iff [OF nz] .
  moreover from bwd have "n \<le> run_length b player r c (- dr) (- dc)"
    unfolding run_length_ge_iff [OF nz'] by simp
  ultimately have "5 \<le> line_total b player r c (dr, dc)"
    using sum by (simp add: line_total_def)
  with d show ?thesis
    unfolding checkWin_total by blast
qed

lemma marked_setCell:
  assumes "wf_board b" "isValid r c"
  shows "marked (setCell b r c v) player x y \<longleftrightarrow>
           (if x = r \<and> y = c then v = player else marked b player x y)"
proof (cases "isValid x y")
  case False
  with assms show ?thesis by (auto simp: marked_def)
next
  case True
  with assms have "nat x < length b" "nat r < length b" "nat c < length (b ! nat r)"
    by (auto simp: wf_board_def isValid_def)
  moreover from True assms have "nat x = nat r \<longleftrightarrow> x = r" "nat y = nat c \<longleftrightarrow> y = c"
    by (auto simp: isValid_def)
  ultimately show ?thesis
    using True assms by (auto simp: marked_def setCell_def nth_list_update)
qed

lemma hasWinningLine_iff:
  "hasWinningLine b player \<longleftrightarrow>
     (\<exists>r0 c0 dr dc. (dr, dc) \<in> set directions \<and>
        (\<forall>i \<in> {0..4}. marked b player (r0 + dr * i) (c0 + dc * i)))"
  (is "?L \<longleftrightarrow> ?R")
proof
  assume ?L
  then show ?R
    by (auto simp: hasWinningLine_def fiveFrom_def list_ex_iff list_all_iff)
next
  assume ?R
  then obtain r0 c0 dr dc where d: "(dr, dc) \<in> set directions"
    and five: "\<forall>i \<in> {0..4}. marked b player (r0 + dr * i) (c0 + dc * i)"
    by blast
  from five have "marked b player (r0 + dr * 0) (c0 + dc * 0)" by (simp del: mult_zero_right)
  then have "isValid r0 c0" by (simp add: marked_def)
  then have "r0 \<in> set [0..BOARD_SIZE - 1]" "c0 \<in> set [0..BOARD_SIZE - 1]"
    by (auto simp: isValid_def)
  with d five show ?L
    unfolding hasWinningLine_def fiveFrom_def list_ex_iff list_all_iff
    by (intro bexI [of _ r0] bexI [of _ c0] bexI [of _ "(dr, dc)"]) auto
qed

lemma new_line_through_stone:
  assumes wf: "wf_board b" and rc: "isValid r c"
    and none: "\<not> hasWinningLine b player"
    and some: "hasWinningLine (setCell b r c v) player"
  shows "checkWin (setCell b r c v) r c player"
proof -
  let ?b' = "setCell b r c v"
  from some obtain r0 c0 dr dc where d: "(dr, dc) \<in> set directions"
    and five: "\<forall>i \<in> {0..4}. marked ?b' player (r0 + dr * i) (c0 + dc * i)"
    unfolding hasWinningLine_iff by blast
  have "\<exists>k \<in> {0..4}. r0 + dr * k = r \<and> c0 + dc * k = c"
  proof (rule ccontr)
    assume "\<not> ?thesis"
    with five have "\<forall>i \<in> {0..4}. marked b player (r0 + dr * i) (c0 + dc * i)"
      by (auto simp: marked_setCell [OF wf rc] split: if_splits)
    with d none show False
      unfolding hasWinningLine_iff by blast
  qed
  then obtain k where k: "0 \<le> k" "k \<le> 4" and r: "r = r0 + dr * k" and c: "c = c0 + dc * k"
    by auto
  have fwd: "\<forall>j \<in> {1..nat (4 - k)}. marked ?b' player (r + dr * int j) (c + dc * int j)"
  proof
    fix j assume "j \<in> {1..nat (4 - k)}"
    with k have "k + int j \<in> {0..4}" by auto
    with five have "marked ?b' player (r0 + dr * (k + int j)) (c0 + dc * (k + int j))" by blast
    then show "marked ?b' player (r + dr * int j) (c + dc * int j)"
      by (simp add: r c algebra_simps)
  qed
  have bwd: "\<forall>j \<in> {1..nat k}. marked ?b' player (r - dr * int j) (c - dc * int j)"
  proof
    fix j assume "j \<in> {1..nat k}"
    with k have "k - int j \<in> {0..4}" by auto
    with five have "marked ?b' player (r0 + dr * (k - int j)) (c0 + dc * (k - int j))" by blast
    then show "marked ?b' player (r - dr * int j) (c - dc * int j)"
      by (simp add: r c algebra_simps)
  qed
  from k have "4 \<le> nat (4 - k) + nat k" by simp
  from checkWin_of_runs [OF d fwd bwd this] show ?thesis .
qed



lemma marked_off_origin:
  assumes wf: "wf_board b" and rc: "isValid r c" and nz: "dr \<noteq> 0 \<or> dc \<noteq> 0"
  shows "marked (setCell b r c v) player (r + dr * int (Suc k)) (c + dc * int (Suc k)) \<longleftrightarrow>
         marked b player (r + dr * int (Suc k)) (c + dc * int (Suc k))"
proof -
  from nz have "\<not> (r + dr * int (Suc k) = r \<and> c + dc * int (Suc k) = c)"
    by auto
  then show ?thesis
    by (simp only: marked_setCell [OF wf rc] if_False)
qed

lemma run_length_setCell:
  assumes "wf_board b" "isValid r c" "dr \<noteq> 0 \<or> dc \<noteq> 0"
  shows "run_length (setCell b r c v) player r c dr dc = run_length b player r c dr dc"
  unfolding run_length_def by (simp only: marked_off_origin [OF assms])

lemma checkWin_setCell:
  assumes wf: "wf_board b" and rc: "isValid r c"
  shows "checkWin (setCell b r c v) r c player = checkWin b r c player"
proof -
  have "line_total (setCell b r c v) player r c d = line_total b player r c d"
    if "d \<in> set directions" for d
  proof -
    obtain dr dc where d: "d = (dr, dc)" by (cases d)
    with that have nz: "dr \<noteq> 0 \<or> dc \<noteq> 0" by (auto simp: directions_def)
    then have nz': "- dr \<noteq> 0 \<or> - dc \<noteq> 0" by simp
    show ?thesis
      by (simp add: d line_total_def run_length_setCell [OF wf rc nz]
          run_length_setCell [OF wf rc nz'])
  qed
  then show ?thesis
    unfolding checkWin_total by simp
qed

lemma checkWin_sound:
  assumes origin: "marked b player r c" and win: "checkWin b r c player"
  shows "hasWinningLine b player"
proof -
  from win obtain dr dc where d: "(dr, dc) \<in> set directions"
    and total: "5 \<le> line_total b player r c (dr, dc)"
    unfolding checkWin_total by auto
  from d have nz: "dr \<noteq> 0 \<or> dc \<noteq> 0" by (auto simp: directions_def)
  then have nz': "- dr \<noteq> 0 \<or> - dc \<noteq> 0" by simp
  let ?f = "run_length b player r c dr dc"
  let ?g = "run_length b player r c (- dr) (- dc)"
  define n where "n = min ?g 4"
  have fwd: "marked b player (r + dr * int j) (c + dc * int j)" if "1 \<le> j" "j \<le> ?f" for j
    using run_length_ge_iff [OF nz, of ?f b player r c] that by simp
  have bwd: "marked b player (r - dr * int j) (c - dc * int j)" if "1 \<le> j" "j \<le> ?g" for j
    using run_length_ge_iff [OF nz', of ?g b player r c] that by simp
  from total have sum: "4 \<le> ?f + n"
    by (simp add: line_total_def n_def)
  have "\<forall>i \<in> {0..4}. marked b player ((r - dr * int n) + dr * i) ((c - dc * int n) + dc * i)"
  proof
    fix i :: int assume i: "i \<in> {0..4}"
    consider "i < int n" | "i = int n" | "int n < i" by linarith
    then show "marked b player ((r - dr * int n) + dr * i) ((c - dc * int n) + dc * i)"
    proof cases
      case 1
      with i have "1 \<le> nat (int n - i)" "nat (int n - i) \<le> ?g"
        by (auto simp: n_def)
      from bwd [OF this] 1 show ?thesis
        by (simp add: algebra_simps)
    next
      case 2
      with origin show ?thesis by simp
    next
      case 3
      with i sum have "1 \<le> nat (i - int n)" "nat (i - int n) \<le> ?f"
        by auto
      from fwd [OF this] 3 show ?thesis
        by (simp add: algebra_simps)
    qed
  qed
  with d show ?thesis
    unfolding hasWinningLine_iff by blast
qed

lemma window_imp_checkWin:
  assumes d: "(dr, dc) \<in> set directions" and k: "0 \<le> k" "k \<le> 4"
    and five: "\<forall>i \<in> {0..4}. marked b player (r + dr * (i - k)) (c + dc * (i - k))"
  shows "checkWin b r c player"
proof -
  have fwd: "\<forall>j \<in> {1..nat (4 - k)}. marked b player (r + dr * int j) (c + dc * int j)"
  proof
    fix j assume "j \<in> {1..nat (4 - k)}"
    with k have "k + int j \<in> {0..4}" by auto
    with five have "marked b player (r + dr * (k + int j - k)) (c + dc * (k + int j - k))"
      by blast
    then show "marked b player (r + dr * int j) (c + dc * int j)" by simp
  qed
  have bwd: "\<forall>j \<in> {1..nat k}. marked b player (r - dr * int j) (c - dc * int j)"
  proof
    fix j assume "j \<in> {1..nat k}"
    with k have "k - int j \<in> {0..4}" by auto
    with five have "marked b player (r + dr * (k - int j - k)) (c + dc * (k - int j - k))"
      by blast
    then show "marked b player (r - dr * int j) (c - dc * int j)" by simp
  qed
  from k have "4 \<le> nat (4 - k) + nat k" by simp
  from checkWin_of_runs [OF d fwd bwd this] show ?thesis .
qed

lemma checkWin_imp_window:
  assumes origin: "marked b player r c" and win: "checkWin b r c player"
  shows "\<exists>d \<in> set directions. \<exists>k \<in> {0..4}. \<forall>i \<in> {0..4}.
           marked b player (r + fst d * (i - k)) (c + snd d * (i - k))"
proof -
  from win obtain dr dc where d: "(dr, dc) \<in> set directions"
    and total: "5 \<le> line_total b player r c (dr, dc)"
    unfolding checkWin_total by auto
  from d have nz: "dr \<noteq> 0 \<or> dc \<noteq> 0" by (auto simp: directions_def)
  then have nz': "- dr \<noteq> 0 \<or> - dc \<noteq> 0" by simp
  let ?f = "run_length b player r c dr dc"
  let ?g = "run_length b player r c (- dr) (- dc)"
  define n where "n = min ?g 4"
  have fwd: "marked b player (r + dr * int j) (c + dc * int j)" if "1 \<le> j" "j \<le> ?f" for j
    using run_length_ge_iff [OF nz, of ?f b player r c] that by simp
  have bwd: "marked b player (r - dr * int j) (c - dc * int j)" if "1 \<le> j" "j \<le> ?g" for j
    using run_length_ge_iff [OF nz', of ?g b player r c] that by simp
  from total have sum: "4 \<le> ?f + n"
    by (simp add: line_total_def n_def)
  have "\<forall>i \<in> {0..4}. marked b player (r + dr * (i - int n)) (c + dc * (i - int n))"
  proof
    fix i :: int assume i: "i \<in> {0..4}"
    consider "i < int n" | "i = int n" | "int n < i" by linarith
    then show "marked b player (r + dr * (i - int n)) (c + dc * (i - int n))"
    proof cases
      case 1
      with i have "1 \<le> nat (int n - i)" "nat (int n - i) \<le> ?g"
        by (auto simp: n_def)
      from bwd [OF this] 1 show ?thesis
        by (simp add: algebra_simps)
    next
      case 2
      with origin show ?thesis by simp
    next
      case 3
      with i sum have "1 \<le> nat (i - int n)" "nat (i - int n) \<le> ?f"
        by auto
      from fwd [OF this] 3 show ?thesis
        by (simp add: algebra_simps)
    qed
  qed
  moreover have "int n \<in> {0..4}" by (simp add: n_def)
  ultimately show ?thesis
    using d by (intro bexI [of _ "(dr, dc)"] bexI [of _ "int n"]) simp_all
qed

subsection \<open>The click listener and the stone it places\<close>

lemma handleClick_eq:
  "handleClick rect e s =
     (ReturnsUndefined,
      if accepts rect e s then placeStone (clickRow rect e) (clickCol rect e) s else s)"
  by (auto simp: handleClick_def accepts_def clickRow_def clickCol_def isValid_def Let_def)

lemma board_placeStone:
  "board (placeStone r c s) = setCell (board s) r c (currentPlayer s)"
  by (simp add: placeStone_def Let_def endGame_def updateTurnUI_def setCell_def)

lemma gameActive_placeStone:
  "gameActive (placeStone r c s) \<longleftrightarrow>
     gameActive s \<and> \<not> checkWin (setCell (board s) r c (currentPlayer s)) r c (currentPlayer s)"
  by (simp add: placeStone_def Let_def endGame_def updateTurnUI_def setCell_def)

lemma currentPlayer_placeStone:
  "currentPlayer (placeStone r c s) =
     (if checkWin (setCell (board s) r c (currentPlayer s)) r c (currentPlayer s)
      then currentPlayer s
      else if currentPlayer s = 1 then 2 else 1)"
  by (simp add: placeStone_def Let_def endGame_def updateTurnUI_def setCell_def)

lemma winnerText_placeStone:
  "winnerText (placeStone r c s) =
     (if checkWin (setCell (board s) r c (currentPlayer s)) r c (currentPlayer s)
      then (if currentPlayer s = 1 then BlackWinText else WhiteWinText)
      else winnerText s)"
  by (simp add: placeStone_def Let_def endGame_def updateTurnUI_def setCell_def)

lemma initBoardState_fields:
  "board (initBoardState s) = replicate 15 (replicate 15 0)"
  "currentPlayer (initBoardState s) = 1"
  "gameActive (initBoardState s)"
  by (simp_all add: initBoardState_def updateTurnUI_def BOARD_SIZE_def)

lemma wf_board_setCell:
  assumes "wf_board b"
  shows "wf_board (setCell b r c v)"
proof (cases "nat r < length b")
  case True
  then have "b ! nat r \<in> set b" by simp
  with assms show ?thesis
    by (auto simp: wf_board_def setCell_def dest!: set_update_subset_insert [THEN subsetD])
next
  case False
  then have "b[nat r := (b ! nat r)[nat c := v]] = b"
    by (simp add: list_update_beyond)
  with assms show ?thesis
    by (simp add: setCell_def)
qed

lemma nth_setCell:
  assumes "wf_board b" "isValid r c" "isValid i j"
  shows "setCell b r c v ! nat i ! nat j = (if i = r \<and> j = c then v else b ! nat i ! nat j)"
proof -
  from assms have "nat i < length b" "nat r < length b" "nat c < length (b ! nat r)"
    by (auto simp: wf_board_def isValid_def)
  moreover from assms have "nat i = nat r \<longleftrightarrow> i = r" "nat j = nat c \<longleftrightarrow> j = c"
    by (auto simp: isValid_def)
  ultimately show ?thesis
    by (auto simp: setCell_def nth_list_update)
qed

lemma inactive_dispatch:
  "\<not> gameActive s \<Longrightarrow> \<not> isReset ev \<Longrightarrow> dispatch ev s = s"
  by (cases ev) (simp_all add: handleClick_eq accepts_def)

lemma inactive_run:
  "\<not> gameActive s \<Longrightarrow> \<not> list_ex isReset evs \<Longrightarrow> run evs s = s"
  by (induction evs arbitrary: s) (simp_all add: inactive_dispatch)

lemma wf_board_dispatch:
  "wf_board (board s) \<Longrightarrow> wf_board (board (dispatch ev s))"
proof (cases ev)
  case (CanvasClick rect e)
  assume "wf_board (board s)"
  with CanvasClick show ?thesis
    by (simp add: handleClick_eq board_placeStone wf_board_setCell)
next
  case ResetClick
  then show ?thesis
    by (simp add: resetGame_def initBoardState_fields wf_board_def BOARD_SIZE_def)
next
  case ModalResetClick
  then show ?thesis
    by (simp add: resetGame_def initBoardState_fields wf_board_def BOARD_SIZE_def)
qed

lemma kept_dispatch:
  assumes "wf_board (board s)" "\<not> isReset ev" "isValid i j" "board s ! nat i ! nat j \<noteq> 0"
  shows "board (dispatch ev s) ! nat i ! nat j = board s ! nat i ! nat j"
proof (cases ev)
  case (CanvasClick rect e)
  show ?thesis
  proof (cases "accepts rect e s")
    case True
    then have rc: "isValid (clickRow rect e) (clickCol rect e)"
      and empty: "board s ! nat (clickRow rect e) ! nat (clickCol rect e) = 0"
      by (simp_all add: accepts_def)
    with assms have "\<not> (i = clickRow rect e \<and> j = clickCol rect e)" by auto
    with True CanvasClick assms rc show ?thesis
      by (auto simp: handleClick_eq board_placeStone nth_setCell)
  next
    case False
    with CanvasClick show ?thesis by (simp add: handleClick_eq)
  qed
qed (use assms in simp_all)

lemma kept_run:
  "wf_board (board s) \<Longrightarrow> \<not> list_ex isReset evs \<Longrightarrow> isValid i j \<Longrightarrow>
   board s ! nat i ! nat j \<noteq> 0 \<Longrightarrow>
     board (run evs s) ! nat i ! nat j = board s ! nat i ! nat j"
proof (induction evs arbitrary: s)
  case Nil
  then show ?case by simp
next
  case (Cons ev evs)
  then have step: "board (dispatch ev s) ! nat i ! nat j = board s ! nat i ! nat j"
    by (simp add: kept_dispatch)
  moreover from Cons.prems have "wf_board (board (dispatch ev s))"
    by (simp add: wf_board_dispatch)
  ultimately have "board (run evs (dispatch ev s)) ! nat i ! nat j =
                   board (dispatch ev s) ! nat i ! nat j"
    using Cons.prems by (intro Cons.IH) simp_all
  with step show ?case by simp
qed

lemma clickIndex_pointAt:
  "clickRow rect0 (pointAt r c) = r" "clickCol rect0 (pointAt r c) = c"
  by (simp_all add: clickRow_def clickCol_def clickIndex_def pointAt_def rect0_def
      PADDING_def CELL_SIZE_def GRID_SIZE_def BOARD_SIZE_def)

subsection \<open>Every reachable state is well formed\<close>

lemma cells_setCell:
  assumes cells: "\<forall>row \<in> set b. \<forall>v \<in> set row. v \<in> {0, 1, 2}" and p: "p \<in> {0, 1, 2::int}"
  shows "\<forall>row \<in> set (setCell b r c p). \<forall>v \<in> set row. v \<in> {0, 1, 2}"
proof (cases "nat r < length b")
  case True
  then have "b ! nat r \<in> set b" by simp
  with cells have old: "\<forall>v \<in> set (b ! nat r). v \<in> {0, 1, 2}" by blast
  have new: "\<forall>v \<in> set ((b ! nat r)[nat c := p]). v \<in> {0, 1, 2}"
  proof
    fix v assume "v \<in> set ((b ! nat r)[nat c := p])"
    then have "v \<in> insert p (set (b ! nat r))"
      using set_update_subset_insert by fastforce
    with old p show "v \<in> {0, 1, 2}" by blast
  qed
  show ?thesis
  proof
    fix row assume "row \<in> set (setCell b r c p)"
    then have "row \<in> insert ((b ! nat r)[nat c := p]) (set b)"
      unfolding setCell_def using set_update_subset_insert by fastforce
    with new cells show "\<forall>v \<in> set row. v \<in> {0, 1, 2}" by blast
  qed
next
  case False
  then have "setCell b r c p = b"
    by (simp add: setCell_def list_update_beyond)
  with cells show ?thesis by simp
qed

lemma valid_state_initBoardState:
  "valid_state (initBoardState s)"
  by (simp add: valid_state_def initBoardState_fields wf_board_def BOARD_SIZE_def)

lemma valid_state_placeStone:
  assumes "valid_state s"
  shows "valid_state (placeStone r c s)"
proof -
  from assms have "currentPlayer s \<in> {0, 1, 2}"
    by (auto simp: valid_state_def)
  with assms have "\<forall>row \<in> set (setCell (board s) r c (currentPlayer s)). \<forall>v \<in> set row. v \<in> {0, 1, 2}"
    by (intro cells_setCell) (simp_all add: valid_state_def)
  moreover from assms have "wf_board (setCell (board s) r c (currentPlayer s))"
    by (simp add: valid_state_def wf_board_setCell)
  moreover from assms have "currentPlayer (placeStone r c s) \<in> {1, 2}"
    by (auto simp: valid_state_def currentPlayer_placeStone)
  ultimately show ?thesis
    by (simp add: valid_state_def board_placeStone)
qed

lemma valid_state_dispatch:
  "valid_state s \<Longrightarrow> valid_state (dispatch ev s)"
  by (cases ev)
    (simp_all add: handleClick_eq valid_state_placeStone resetGame_def valid_state_initBoardState)

lemma valid_state_run:
  "valid_state s \<Longrightarrow> valid_state (run evs s)"
  by (induction evs arbitrary: s) (simp_all add: valid_state_dispatch)

lemma valid_state_reachable:
  "valid_state (run evs (initBoardState s))"
  by (simp add: valid_state_run valid_state_initBoardState)

section \<open>The claims of the specification\<close>

text \<open>
  Claim C1. On every 15 x 15 board, at every position inside it and for every
  player, \<open>checkWin\<close> answers true exactly when one of the four directions has
  a count of at least 5, where the count of a direction is the placed stone
  itself plus the consecutive cells of the player that follow it one way plus
  those that follow it the other way (\<open>line_total\<close>, with no cap on the length
  of a run). A count of six or more is a win as well: the test is \<open>\<ge> 5\<close>.
  When the position holds the player's stone, this is to say that five cells
  in a row along one of the directions, the position among them, are all the
  player's.
\<close>

theorem checkWin_iff_count_ge_5:
  assumes "wf_board b" and "isValid r c"
  shows "(checkWin b r c player \<longleftrightarrow> (\<exists>d \<in> set directions. 5 \<le> line_total b player r c d)) \<and>
         (\<forall>d \<in> set directions. 6 \<le> line_total b player r c d \<longrightarrow> checkWin b r c player) \<and>
         (b ! nat r ! nat c = player \<longrightarrow>
            (checkWin b r c player \<longleftrightarrow>
               (\<exists>d \<in> set directions. \<exists>k \<in> {0..4}. \<forall>i \<in> {0..4}.
                  marked b player (r + fst d * (i - k)) (c + snd d * (i - k)))))"
proof -
  have six: "\<exists>d' \<in> set directions. 5 \<le> line_total b player r c d'"
    if "d \<in> set directions" "6 \<le> line_total b player r c d" for d
    using that by (intro bexI [of _ d]) simp_all
  have window: "checkWin b r c player \<longleftrightarrow>
      (\<exists>d \<in> set directions. \<exists>k \<in> {0..4}. \<forall>i \<in> {0..4}.
         marked b player (r + fst d * (i - k)) (c + snd d * (i - k)))"
    (is "?L \<longleftrightarrow> ?R") if "b ! nat r ! nat c = player"
  proof
    from that assms(2) have "marked b player r c" by (simp add: marked_def)
    moreover assume ?L
    ultimately show ?R by (rule checkWin_imp_window)
  next
    assume ?R
    then obtain d k where "d \<in> set directions" "k \<in> {0..4}"
      "\<forall>i \<in> {0..4}. marked b player (r + fst d * (i - k)) (c + snd d * (i - k))"
      by blast
    then show ?L
      using window_imp_checkWin [of "fst d" "snd d" k b player r c] by simp
  qed
  from six window show ?thesis
    unfolding checkWin_total by blast
qed

theorem checkWin_iff_count_ge_5_witness:
  "wf_board sixBoard \<and> isValid 7 4 \<and> sixBoard ! 7 ! 4 = 1 \<and>
   6 \<le> line_total sixBoard 1 7 4 (0, 1) \<and> checkWin sixBoard 7 4 1"
proof -
  have wf: "wf_board sixBoard" by code_simp
  have rc: "isValid 7 4" by code_simp
  have st: "sixBoard ! 7 ! 4 = 1" by code_simp
  have "\<forall>j \<in> {1..3::nat}. marked sixBoard 1 (7 + 0 * int j) (4 + 1 * int j)"
    by code_simp
  then have f: "3 \<le> run_length sixBoard 1 7 4 0 1"
    by (simp add: run_length_ge_iff)
  have "\<forall>j \<in> {1..2::nat}. marked sixBoard 1 (7 + (- 0) * int j) (4 + (- 1) * int j)"
    by code_simp
  then have g: "2 \<le> run_length sixBoard 1 7 4 (- 0) (- 1)"
    by (simp add: run_length_ge_iff)
  from f g have six: "6 \<le> line_total sixBoard 1 7 4 (0, 1)"
    by (simp add: line_total_def)
  have d: "(0, 1) \<in> set directions"
    by (simp add: directions_def)
  from checkWin_iff_count_ge_5 [OF wf rc, of 1] six d have "checkWin sixBoard 7 4 1"
    by blast
  with wf rc st six show ?thesis by simp
qed

text \<open>
  Claim C2. Take a 15 x 15 board that holds no line of five of the player to
  move and an empty cell inside it. After \<open>placeStone\<close> has put the player's
  stone there, a scan of the whole board finds a line of five of that player
  if and only if \<open>checkWin\<close> at the stone just placed answers true: a new
  winning line always runs through the new stone.
\<close>

theorem win_check_at_stone_equals_board_scan:
  assumes "wf_board (board s)" and "isValid r c" and "board s ! nat r ! nat c = 0"
    and "\<not> hasWinningLine (board s) (currentPlayer s)"
  shows "hasWinningLine (board (placeStone r c s)) (currentPlayer s) \<longleftrightarrow>
         checkWin (board (placeStone r c s)) r c (currentPlayer s)"
proof
  assume "hasWinningLine (board (placeStone r c s)) (currentPlayer s)"
  with assms show "checkWin (board (placeStone r c s)) r c (currentPlayer s)"
    by (simp add: board_placeStone new_line_through_stone)
next
  assume win: "checkWin (board (placeStone r c s)) r c (currentPlayer s)"
  from assms(1,2) have "marked (board (placeStone r c s)) (currentPlayer s) r c"
    by (simp add: board_placeStone marked_setCell)
  from checkWin_sound [OF this win]
  show "hasWinningLine (board (placeStone r c s)) (currentPlayer s)" .
qed

theorem win_check_at_stone_equals_board_scan_witness:
  "wf_board (board nearWin) \<and> isValid 7 7 \<and> board nearWin ! 7 ! 7 = 0 \<and>
   \<not> hasWinningLine (board nearWin) (currentPlayer nearWin) \<and>
   hasWinningLine (board (placeStone 7 7 nearWin)) (currentPlayer nearWin) \<and>
   checkWin (board (placeStone 7 7 nearWin)) 7 7 (currentPlayer nearWin)"
proof -
  have wf: "wf_board (board nearWin)" by code_simp
  have rc: "isValid 7 7" by code_simp
  have e: "board nearWin ! 7 ! 7 = 0" by code_simp
  then have e': "board nearWin ! nat 7 ! nat 7 = 0" by simp
  have none: "\<not> hasWinningLine (board nearWin) (currentPlayer nearWin)" by code_simp
  have some: "hasWinningLine (board (placeStone 7 7 nearWin)) (currentPlayer nearWin)"
    by code_simp
  from win_check_at_stone_equals_board_scan [OF wf rc e' none] some wf rc e none
  show ?thesis by simp
qed

text \<open>
  Claim C3, as the listener has it. A click while the game is over, a click
  whose rounded coordinates fall outside the board, and a click on an occupied
  cell are each dropped in silence: the call returns \<open>undefined\<close>, as an
  accepted click does, and the whole state, the board with it, is left as it
  was. The listener has no player argument (the stone is always the current
  player's), so a move out of turn cannot be submitted, and it has no error
  value to signal.
\<close>

theorem rejected_click_is_silent_noop:
  assumes "\<not> gameActive s \<or> \<not> isValid (clickRow rect e) (clickCol rect e) \<or>
           board s ! nat (clickRow rect e) ! nat (clickCol rect e) \<noteq> 0"
  shows "handleClick rect e s = (ReturnsUndefined, s)"
  using assms by (auto simp: handleClick_eq accepts_def)

theorem rejected_click_is_silent_noop_witness:
  "board nearWin ! 7 ! 6 \<noteq> 0 \<and>
   handleClick rect0 (pointAt 7 6) nearWin = (ReturnsUndefined, nearWin) \<and>
   \<not> isValid 7 15 \<and>
   handleClick rect0 (pointAt 7 15) nearWin = (ReturnsUndefined, nearWin) \<and>
   \<not> gameActive won \<and>
   handleClick rect0 (pointAt 1 1) won = (ReturnsUndefined, won)"
proof -
  have occ: "board nearWin ! 7 ! 6 \<noteq> 0" by code_simp
  have out: "\<not> isValid 7 15" by code_simp
  have over: "\<not> gameActive won" by code_simp
  from occ have "handleClick rect0 (pointAt 7 6) nearWin = (ReturnsUndefined, nearWin)"
    by (intro rejected_click_is_silent_noop) (simp add: clickIndex_pointAt)
  moreover from out have "handleClick rect0 (pointAt 7 15) nearWin = (ReturnsUndefined, nearWin)"
    by (intro rejected_click_is_silent_noop) (simp add: clickIndex_pointAt)
  moreover from over have "handleClick rect0 (pointAt 1 1) won = (ReturnsUndefined, won)"
    by (intro rejected_click_is_silent_noop) simp
  ultimately show ?thesis
    using occ out over by simp
qed

text \<open>
  Claim C3 as stated asks a rejected move to signal InvalidMove. After four
  black stones on row 7 (\<open>nearWin\<close>), a click on the occupied cell (7, 6) is
  rejected, and the call ends by returning \<open>undefined\<close> with the state
  untouched, exactly the completion of the accepted click on (7, 7): nothing is
  signalled.
\<close>

theorem rejected_click_signals_nothing:
  "gameActive nearWin \<and> isValid 7 6 \<and> board nearWin ! 7 ! 6 \<noteq> 0 \<and>
   clickRow rect0 (pointAt 7 6) = 7 \<and> clickCol rect0 (pointAt 7 6) = 6 \<and>
   \<not> signalsInvalidMove (fst (handleClick rect0 (pointAt 7 6) nearWin)) \<and>
   snd (handleClick rect0 (pointAt 7 6) nearWin) = nearWin \<and>
   accepts rect0 (pointAt 7 7) nearWin \<and>
   fst (handleClick rect0 (pointAt 7 6) nearWin) = fst (handleClick rect0 (pointAt 7 7) nearWin)"
  by code_simp

text \<open>
  Claim C4. With the current player 1 or 2 (as in every reachable state, see
  \<open>valid_state_reachable\<close>), an accepted click that does not win hands the turn
  to the other player (\<open>3 - currentPlayer\<close>: 1 becomes 2 and 2 becomes 1) and the
  game stays active; a rejected click leaves the current player as it was.
\<close>

theorem turn_alternation:
  assumes "currentPlayer s \<in> {1, 2}"
  shows "(accepts rect e s \<and>
          \<not> checkWin (board (dispatch (CanvasClick rect e) s)) (clickRow rect e) (clickCol rect e)
              (currentPlayer s)
          \<longrightarrow> currentPlayer (dispatch (CanvasClick rect e) s) = 3 - currentPlayer s \<and>
              gameActive (dispatch (CanvasClick rect e) s)) \<and>
         (\<not> accepts rect e s
          \<longrightarrow> currentPlayer (dispatch (CanvasClick rect e) s) = currentPlayer s)"
  using assms
  by (auto simp: handleClick_eq board_placeStone currentPlayer_placeStone gameActive_placeStone
      accepts_def)

theorem turn_alternation_witness:
  "currentPlayer fresh = 1 \<and> accepts rect0 (pointAt 7 7) fresh \<and>
   \<not> checkWin (board (dispatch (CanvasClick rect0 (pointAt 7 7)) fresh)) 7 7 (currentPlayer fresh) \<and>
   currentPlayer (dispatch (CanvasClick rect0 (pointAt 7 7)) fresh) = 2 \<and>
   \<not> accepts rect0 (pointAt 7 6) nearWin \<and>
   currentPlayer (dispatch (CanvasClick rect0 (pointAt 7 6)) nearWin) = currentPlayer nearWin"
proof -
  have p: "currentPlayer fresh = 1" by code_simp
  then have v: "currentPlayer fresh \<in> {1, 2}" by simp
  have a: "accepts rect0 (pointAt 7 7) fresh" by code_simp
  have n: "\<not> checkWin (board (dispatch (CanvasClick rect0 (pointAt 7 7)) fresh)) 7 7
             (currentPlayer fresh)" by code_simp
  have q: "currentPlayer nearWin \<in> {1, 2}" by code_simp
  have r: "\<not> accepts rect0 (pointAt 7 6) nearWin" by code_simp
  from turn_alternation [OF v, of rect0 "pointAt 7 7"] a n p
  have "currentPlayer (dispatch (CanvasClick rect0 (pointAt 7 7)) fresh) = 2"
    by (simp add: clickIndex_pointAt)
  moreover from turn_alternation [OF q, of rect0 "pointAt 7 6"] r
  have "currentPlayer (dispatch (CanvasClick rect0 (pointAt 7 6)) nearWin) = currentPlayer nearWin"
    by blast
  ultimately show ?thesis
    using p a n r by simp
qed

text \<open>
  Claim C5. In the won state (\<open>gameActive\<close> false) every click is rejected,
  whatever its coordinates; any run of events without a reset leaves the state
  as it is, so a run that ends in an active game contains a reset; and
  \<open>resetGame\<close> makes the game active again.
\<close>

theorem won_rejects_until_reset:
  assumes "\<not> gameActive s"
  shows "(\<forall>rect e. handleClick rect e s = (ReturnsUndefined, s)) \<and>
         (\<forall>evs. \<not> list_ex isReset evs \<longrightarrow> run evs s = s) \<and>
         (\<forall>evs. gameActive (run evs s) \<longrightarrow> list_ex isReset evs) \<and>
         gameActive (resetGame s)"
proof -
  have "list_ex isReset evs" if active: "gameActive (run evs s)" for evs
  proof (rule ccontr)
    assume "\<not> list_ex isReset evs"
    with assms have "run evs s = s" by (rule inactive_run)
    with active assms show False by simp
  qed
  with assms show ?thesis
    by (simp add: handleClick_eq accepts_def inactive_run resetGame_def initBoardState_fields)
qed

theorem won_rejects_until_reset_witness:
  "accepts rect0 (pointAt 7 7) nearWin \<and> won = dispatch (clickAt 7 7) nearWin \<and>
   \<not> gameActive won \<and>
   handleClick rect0 (pointAt 1 1) won = (ReturnsUndefined, won) \<and>
   run [clickAt 1 1, clickAt 7 8, clickAt 20 3] won = won \<and>
   gameActive (resetGame won)"
proof -
  have a: "accepts rect0 (pointAt 7 7) nearWin" by code_simp
  have over: "\<not> gameActive won" by code_simp
  have nr: "\<not> list_ex isReset [clickAt 1 1, clickAt 7 8, clickAt 20 3]"
    by (simp add: clickAt_def)
  have w: "won = dispatch (clickAt 7 7) nearWin"
    by (simp only: won_def)
  note stuck = won_rejects_until_reset [OF over]
  from stuck have h1: "handleClick rect0 (pointAt 1 1) won = (ReturnsUndefined, won)"
    by blast
  from stuck nr have h2: "run [clickAt 1 1, clickAt 7 8, clickAt 20 3] won = won"
    by blast
  from stuck have h3: "gameActive (resetGame won)"
    by blast
  from a w over h1 h2 h3 show ?thesis
    by blast
qed

text \<open>
  Claim C6. On a 15 x 15 board with the current player 1 or 2, an accepted
  click changes exactly one cell: the clicked cell was 0 and now holds the
  current player's mark, and the set of cells of the board whose value differs
  is the singleton of the clicked cell. The shape of the board is kept.
\<close>

theorem accepted_click_changes_one_cell:
  assumes "wf_board (board s)" and "currentPlayer s \<in> {1, 2}" and "accepts rect e s"
  shows "board s ! nat (clickRow rect e) ! nat (clickCol rect e) = 0 \<and>
         board (dispatch (CanvasClick rect e) s) ! nat (clickRow rect e) ! nat (clickCol rect e)
           = currentPlayer s \<and>
         {(i, j). isValid i j \<and>
            board (dispatch (CanvasClick rect e) s) ! nat i ! nat j \<noteq> board s ! nat i ! nat j}
           = {(clickRow rect e, clickCol rect e)} \<and>
         wf_board (board (dispatch (CanvasClick rect e) s))"
proof -
  let ?r = "clickRow rect e" and ?c = "clickCol rect e"
  from assms(3) have rc: "isValid ?r ?c" and empty: "board s ! nat ?r ! nat ?c = 0"
    by (simp_all add: accepts_def)
  have b: "board (dispatch (CanvasClick rect e) s) = setCell (board s) ?r ?c (currentPlayer s)"
    using assms(3) by (simp add: handleClick_eq board_placeStone)
  have cell: "setCell (board s) ?r ?c (currentPlayer s) ! nat i ! nat j =
              (if i = ?r \<and> j = ?c then currentPlayer s else board s ! nat i ! nat j)"
    if "isValid i j" for i j
    using nth_setCell [OF assms(1) rc that] .
  from assms(2) empty have ne: "currentPlayer s \<noteq> board s ! nat ?r ! nat ?c" by auto
  have "{(i, j). isValid i j \<and>
            setCell (board s) ?r ?c (currentPlayer s) ! nat i ! nat j \<noteq> board s ! nat i ! nat j}
        = {(?r, ?c)}"
    using rc ne by (auto simp: cell split: if_splits)
  with empty rc assms(1) show ?thesis
    by (simp add: b cell wf_board_setCell del: dispatch.simps)
qed

theorem accepted_click_changes_one_cell_witness:
  "wf_board (board nearWin) \<and> currentPlayer nearWin = 1 \<and> accepts rect0 (pointAt 7 7) nearWin \<and>
   board nearWin ! 7 ! 7 = 0 \<and>
   board (dispatch (CanvasClick rect0 (pointAt 7 7)) nearWin) ! 7 ! 7 = 1 \<and>
   {(i, j). isValid i j \<and>
      board (dispatch (CanvasClick rect0 (pointAt 7 7)) nearWin) ! nat i ! nat j
        \<noteq> board nearWin ! nat i ! nat j} = {(7, 7)}"
proof -
  have wf: "wf_board (board nearWin)" by code_simp
  have p: "currentPlayer nearWin = 1" by code_simp
  then have v: "currentPlayer nearWin \<in> {1, 2}" by simp
  have a: "accepts rect0 (pointAt 7 7) nearWin" by code_simp
  from accepted_click_changes_one_cell [OF wf v a] wf p a show ?thesis
    by (simp add: clickIndex_pointAt)
qed

text \<open>
  Claim C7. From any state, \<open>resetGame\<close> gives a board of 15 rows of 15 zeros
  (every cell inside the board is 0), current player 1 and an active game.
  \<open>resetGame\<close> is a total function with no failing branch.
\<close>

theorem reset_gives_empty_board:
  "board (resetGame s) = replicate 15 (replicate 15 0) \<and>
   (\<forall>r c. isValid r c \<longrightarrow> board (resetGame s) ! nat r ! nat c = 0) \<and>
   wf_board (board (resetGame s)) \<and>
   currentPlayer (resetGame s) = 1 \<and> gameActive (resetGame s)"
proof -
  have "replicate 15 (replicate 15 0) ! nat r ! nat c = (0::int)" if "isValid r c" for r c
  proof -
    from that have "nat r < 15" "nat c < 15"
      by (auto simp: isValid_def BOARD_SIZE_def)
    then show ?thesis by simp
  qed
  then show ?thesis
    by (simp add: resetGame_def initBoardState_fields wf_board_def BOARD_SIZE_def)
qed

theorem reset_gives_empty_board_witness:
  "\<not> gameActive won \<and> board won ! 7 ! 7 = 1 \<and> isValid 7 7 \<and>
   board (resetGame won) ! 7 ! 7 = 0 \<and> currentPlayer (resetGame won) = 1 \<and>
   gameActive (resetGame won)"
proof -
  have over: "\<not> gameActive won" by code_simp
  have st: "board won ! 7 ! 7 = 1" by code_simp
  have rc: "isValid 7 7" by code_simp
  from reset_gives_empty_board [of won] rc have "board (resetGame won) ! nat 7 ! nat 7 = 0"
    by blast
  with reset_gives_empty_board [of won] over st rc show ?thesis
    by simp
qed

text \<open>
  Claim C8. Along any run of events that contains no reset, a cell of the
  board that holds a stone keeps that same stone: no event of a game empties or
  recolours an occupied cell.
\<close>

theorem stones_are_never_removed:
  assumes "wf_board (board s)" and "\<not> list_ex isReset evs"
    and "isValid i j" and "board s ! nat i ! nat j \<noteq> 0"
  shows "board (run evs s) ! nat i ! nat j = board s ! nat i ! nat j"
  using assms by (rule kept_run)

theorem stones_are_never_removed_witness:
  "wf_board (board nearWin) \<and> isValid 7 3 \<and> board nearWin ! 7 ! 3 = 1 \<and>
   board (run [clickAt 7 3, clickAt 8 8, clickAt 7 7, clickAt 7 3] nearWin) ! 7 ! 3 = 1"
proof -
  have wf: "wf_board (board nearWin)" by code_simp
  have rc: "isValid 7 3" by code_simp
  have st: "board nearWin ! 7 ! 3 = 1" by code_simp
  then have ne: "board nearWin ! nat 7 ! nat 3 \<noteq> 0" by simp
  have nr: "\<not> list_ex isReset [clickAt 7 3, clickAt 8 8, clickAt 7 7, clickAt 7 3]"
    by (simp add: clickAt_def)
  from stones_are_never_removed [OF wf nr rc ne] wf rc st show ?thesis
    by simp
qed

text \<open>
  Claim C9. \<open>checkWin\<close> never reads the cell it starts from. When that cell
  does not hold the player's mark and four cells of the player lie next to it
  on one line (\<open>m\<close> of them one way and \<open>n\<close> the other way), the answer is
  true, and it stays true whatever value \<open>v\<close> is written into the cell. The
  verdict is a real five in a row only when the cell does hold the player's mark.
\<close>

theorem checkWin_counts_origin_unconditionally:
  assumes "wf_board b" and "isValid r c" and "b ! nat r ! nat c \<noteq> player"
    and "(dr, dc) \<in> set directions"
    and "\<forall>j \<in> {1..m}. marked b player (r + dr * int j) (c + dc * int j)"
    and "\<forall>j \<in> {1..n}. marked b player (r - dr * int j) (c - dc * int j)"
    and "4 \<le> m + n"
  shows "checkWin b r c player \<and> (\<forall>v. checkWin (setCell b r c v) r c player)"
proof -
  from assms(4-7) have "checkWin b r c player"
    by (rule checkWin_of_runs)
  then show ?thesis
    by (simp add: checkWin_setCell [OF assms(1,2)])
qed

theorem checkWin_counts_origin_unconditionally_witness:
  "wf_board fourBoard \<and> isValid 7 7 \<and> fourBoard ! 7 ! 7 = 0 \<and> checkWin fourBoard 7 7 1 \<and>
   checkWin (setCell fourBoard 7 7 2) 7 7 1"
proof -
  have wf: "wf_board fourBoard" by code_simp
  have rc: "isValid 7 7" by code_simp
  have e: "fourBoard ! 7 ! 7 = 0" by code_simp
  then have ne: "fourBoard ! nat 7 ! nat 7 \<noteq> 1" by simp
  have d: "(0, 1) \<in> set directions" by (simp add: directions_def)
  have f: "\<forall>j \<in> {1..0::nat}. marked fourBoard 1 (7 + 0 * int j) (7 + 1 * int j)" by simp
  have g: "\<forall>j \<in> {1..4::nat}. marked fourBoard 1 (7 - 0 * int j) (7 - 1 * int j)" by code_simp
  from checkWin_counts_origin_unconditionally [OF wf rc ne d f g] wf rc e
  show ?thesis by simp
qed

text \<open>
  Claim C10. When a click ends the game (active before, not active after), the
  click was accepted and won, the stone it placed is the current player's, the
  current player is not toggled, and the winner caption names that player
  (black for 1, white otherwise). Through every later run of events without a
  reset the game stays over with the same current player and the same caption.
\<close>

theorem winner_is_current_player:
  assumes "wf_board (board s)" and "gameActive s"
    and "\<not> gameActive (dispatch (CanvasClick rect e) s)"
  shows "accepts rect e s \<and>
         checkWin (board (dispatch (CanvasClick rect e) s)) (clickRow rect e) (clickCol rect e)
           (currentPlayer s) \<and>
         board (dispatch (CanvasClick rect e) s) ! nat (clickRow rect e) ! nat (clickCol rect e)
           = currentPlayer s \<and>
         currentPlayer (dispatch (CanvasClick rect e) s) = currentPlayer s \<and>
         winnerText (dispatch (CanvasClick rect e) s) =
           (if currentPlayer s = 1 then BlackWinText else WhiteWinText) \<and>
         (\<forall>evs. \<not> list_ex isReset evs \<longrightarrow>
            \<not> gameActive (run evs (dispatch (CanvasClick rect e) s)) \<and>
            currentPlayer (run evs (dispatch (CanvasClick rect e) s)) = currentPlayer s \<and>
            winnerText (run evs (dispatch (CanvasClick rect e) s)) =
              (if currentPlayer s = 1 then BlackWinText else WhiteWinText))"
proof -
  let ?s' = "dispatch (CanvasClick rect e) s"
  from assms have a: "accepts rect e s"
    by (auto simp: handleClick_eq split: if_splits)
  with assms have win: "checkWin (board ?s') (clickRow rect e) (clickCol rect e) (currentPlayer s)"
    by (simp add: handleClick_eq gameActive_placeStone board_placeStone)
  from a have rc: "isValid (clickRow rect e) (clickCol rect e)"
    by (simp add: accepts_def)
  with a assms(1) have stone:
    "board ?s' ! nat (clickRow rect e) ! nat (clickCol rect e) = currentPlayer s"
    by (simp add: handleClick_eq board_placeStone nth_setCell)
  from a win have now: "currentPlayer ?s' = currentPlayer s"
    "winnerText ?s' = (if currentPlayer s = 1 then BlackWinText else WhiteWinText)"
    by (simp_all add: handleClick_eq currentPlayer_placeStone winnerText_placeStone
        board_placeStone)
  have "run evs ?s' = ?s'" if "\<not> list_ex isReset evs" for evs
    using assms(3) that by (rule inactive_run)
  with a win stone now assms(3) show ?thesis
    by simp
qed

theorem winner_is_current_player_witness:
  "wf_board (board nearWin) \<and> gameActive nearWin \<and> currentPlayer nearWin = 1 \<and>
   \<not> gameActive (dispatch (CanvasClick rect0 (pointAt 7 7)) nearWin) \<and>
   currentPlayer (dispatch (CanvasClick rect0 (pointAt 7 7)) nearWin) = 1 \<and>
   winnerText (dispatch (CanvasClick rect0 (pointAt 7 7)) nearWin) = BlackWinText \<and>
   currentPlayer (run [clickAt 1 1, clickAt 7 8]
     (dispatch (CanvasClick rect0 (pointAt 7 7)) nearWin)) = 1"
proof -
  have wf: "wf_board (board nearWin)" by code_simp
  have act: "gameActive nearWin" by code_simp
  have p: "currentPlayer nearWin = 1" by code_simp
  have over: "\<not> gameActive (dispatch (CanvasClick rect0 (pointAt 7 7)) nearWin)" by code_simp
  have nr: "\<not> list_ex isReset [clickAt 1 1, clickAt 7 8]"
    by (simp add: clickAt_def)
  note w = winner_is_current_player [OF wf act over]
  from w p have h1: "currentPlayer (dispatch (CanvasClick rect0 (pointAt 7 7)) nearWin) = 1"
    by metis
  from w p have h2: "winnerText (dispatch (CanvasClick rect0 (pointAt 7 7)) nearWin) = BlackWinText"
    by metis
  from w nr p have h3: "currentPlayer (run [clickAt 1 1, clickAt 7 8]
      (dispatch (CanvasClick rect0 (pointAt 7 7)) nearWin)) = 1"
    by metis
  from wf act p over h1 h2 h3 show ?thesis
    by blast
qed

end
